theory Spec2Isabelle
  imports Complex_Main
begin

section \<open>Python strings\<close>

text \<open>
  A Python \<^verbatim>\<open>str\<close> is a sequence of Unicode code points, so it is modelled as a list of
  natural numbers. \<open>ustr\<close> reads an ASCII literal as such a string.
\<close>

type_synonym ustring = "nat list"

definition ustr :: "string \<Rightarrow> ustring" where
  "ustr s = map of_char s"

text \<open>\<^verbatim>\<open>str.isspace\<close> on one code point; the regex class \<^verbatim>\<open>\s\<close> is the same set.\<close>

definition py_isspace :: "nat \<Rightarrow> bool" where
  "py_isspace c =
     ((9 \<le> c \<and> c \<le> 13) \<or> (28 \<le> c \<and> c \<le> 32) \<or> c = 133 \<or> c = 160 \<or> c = 5760
      \<or> (8192 \<le> c \<and> c \<le> 8202) \<or> c = 8232 \<or> c = 8233 \<or> c = 8239 \<or> c = 8287
      \<or> c = 12288)"

text \<open>
  The decimal digits of Unicode (category Nd), as the blocks \<open>(first, last)\<close> of consecutive
  code points; within a block the digit value is the offset modulo 10. They are what the regex
  class \<^verbatim>\<open>\d\<close> matches and what \<^verbatim>\<open>int()\<close> reads.
\<close>

definition decimal_blocks :: "(nat \<times> nat) list" where
  "decimal_blocks =
     [(48, 57), (1632, 1641), (1776, 1785), (1984, 1993), (2406, 2415), (2534, 2543),
      (2662, 2671), (2790, 2799), (2918, 2927), (3046, 3055), (3174, 3183), (3302, 3311),
      (3430, 3439), (3558, 3567), (3664, 3673), (3792, 3801), (3872, 3881), (4160, 4169),
      (4240, 4249), (6112, 6121), (6160, 6169), (6470, 6479), (6608, 6617), (6784, 6793),
      (6800, 6809), (6992, 7001), (7088, 7097), (7232, 7241), (7248, 7257), (42528, 42537),
      (43216, 43225), (43264, 43273), (43472, 43481), (43504, 43513), (43600, 43609),
      (44016, 44025), (65296, 65305), (66720, 66729), (68912, 68921), (69734, 69743),
      (69872, 69881), (69942, 69951), (70096, 70105), (70384, 70393), (70736, 70745),
      (70864, 70873), (71248, 71257), (71360, 71369), (71472, 71481), (71904, 71913),
      (72016, 72025), (72784, 72793), (73040, 73049), (73120, 73129), (92768, 92777),
      (92864, 92873), (93008, 93017), (120782, 120831), (123200, 123209), (123632, 123641),
      (125264, 125273), (130032, 130041)]"

definition py_decimal :: "nat \<Rightarrow> nat option" where
  "py_decimal c =
     (case find (\<lambda>(lo, hi). lo \<le> c \<and> c \<le> hi) decimal_blocks of
        None \<Rightarrow> None
      | Some (lo, hi) \<Rightarrow> Some ((c - lo) mod 10))"

text \<open>\<^verbatim>\<open>s.strip()\<close>: leading and trailing whitespace removed.\<close>

definition py_strip :: "ustring \<Rightarrow> ustring" where
  "py_strip s = rev (dropWhile py_isspace (rev (dropWhile py_isspace s)))"

text \<open>\<^verbatim>\<open>s.split(sep)\<close> for a separator of one code point: every occurrence cuts.\<close>

fun py_split :: "nat \<Rightarrow> ustring \<Rightarrow> ustring \<Rightarrow> ustring list" where
  "py_split sep cur [] = [cur]"
| "py_split sep cur (c # cs) =
     (if c = sep then cur # py_split sep [] cs else py_split sep (cur @ [c]) cs)"

text \<open>
  \<^verbatim>\<open>int(s)\<close> in base 10: surrounding whitespace is dropped, one sign may lead, then decimal
  digits follow, with single underscores allowed between digits. \<open>None\<close> is the
  \<^verbatim>\<open>ValueError\<close>. The interpreter's configurable limit on the number of digits is not
  modelled.
\<close>

fun int_digits :: "nat \<Rightarrow> bool \<Rightarrow> ustring \<Rightarrow> nat option" where
  "int_digits acc prev_digit [] = (if prev_digit then Some acc else None)"
| "int_digits acc prev_digit (c # cs) =
     (if c = 95 then (if prev_digit then int_digits acc False cs else None)
      else (case py_decimal c of
              None \<Rightarrow> None
            | Some d \<Rightarrow> int_digits (10 * acc + d) True cs))"

definition py_int :: "ustring \<Rightarrow> int option" where
  "py_int s =
     (case py_strip s of
        [] \<Rightarrow> None
      | c # cs \<Rightarrow>
          if c = 45 then map_option (\<lambda>n. - int n) (int_digits 0 False cs)
          else if c = 43 then map_option int (int_digits 0 False cs)
          else map_option int (int_digits 0 False (c # cs)))"

section \<open>parse_skip_pages\<close>

text \<open>
  One round of the loop over \<^verbatim>\<open>skip_str.split(',')\<close>. The bare \<^verbatim>\<open>except\<close> clauses turn a
  failed \<^verbatim>\<open>int()\<close> into \<^verbatim>\<open>continue\<close>; \<^verbatim>\<open>part.split('-', maxsplit=1)\<close> cuts at the first
  hyphen; \<^verbatim>\<open>range(lo_i, hi_i + 1)\<close> is \<open>[lo_i..hi_i]\<close>.
\<close>

definition parse_part :: "int set \<Rightarrow> ustring \<Rightarrow> int set" where
  "parse_part skips part0 =
     (let part = py_strip part0 in
      if part = [] then skips
      else if 45 \<in> set part then
        (let lo = takeWhile (\<lambda>c. c \<noteq> 45) part;
             hi = tl (dropWhile (\<lambda>c. c \<noteq> 45) part) in
         case py_int (py_strip lo) of
           None \<Rightarrow> skips
         | Some lo_i \<Rightarrow>
             (case py_int (py_strip hi) of
                None \<Rightarrow> skips
              | Some hi_i \<Rightarrow> if lo_i \<le> hi_i then skips \<union> set [lo_i..hi_i] else skips))
      else
        (case py_int part of
           None \<Rightarrow> skips
         | Some num \<Rightarrow> insert num skips))"

definition parse_skip_pages :: "ustring \<Rightarrow> int set" where
  "parse_skip_pages skip_str = foldl parse_part {} (py_split 44 [] skip_str)"

text \<open>
  The reading of the specification: a token is a bare integer (no hyphen, reads as an
  integer), or a \<open>lo-hi\<close> token (the texts before and after its first hyphen read as
  integers), or malformed; the result is the union of what the tokens stand for.
\<close>

definition bare_integer :: "ustring \<Rightarrow> int option" where
  "bare_integer tok = (if 45 \<in> set (py_strip tok) then None else py_int (py_strip tok))"

definition lo_hi_token :: "ustring \<Rightarrow> (int \<times> int) option" where
  "lo_hi_token tok =
     (let t = py_strip tok in
      if 45 \<in> set t then
        (case (py_int (py_strip (takeWhile (\<lambda>c. c \<noteq> 45) t)),
               py_int (py_strip (tl (dropWhile (\<lambda>c. c \<noteq> 45) t)))) of
           (Some lo, Some hi) \<Rightarrow> Some (lo, hi)
         | _ \<Rightarrow> None)
      else None)"

definition token_pages :: "ustring \<Rightarrow> int set" where
  "token_pages tok =
     (case bare_integer tok of
        Some n \<Rightarrow> {n}
      | None \<Rightarrow>
          (case lo_hi_token tok of
             Some (lo, hi) \<Rightarrow> if lo \<le> hi then {lo..hi} else {}
           | None \<Rightarrow> {}))"

definition skip_pages_spec :: "ustring \<Rightarrow> int set" where
  "skip_pages_spec skip_str = (\<Union>tok \<in> set (py_split 44 [] skip_str). token_pages tok)"

section \<open>Line-break normalisation and sentence splitting\<close>

text \<open>The sentence-terminal characters \<^verbatim>\<open>. ! ?\<close>, the ellipsis U+2026, and U+3002, U+FF1F, U+FF01.\<close>

definition is_terminal :: "nat \<Rightarrow> bool" where
  "is_terminal c =
     (c = 46 \<or> c = 33 \<or> c = 63 \<or> c = 8230 \<or> c = 12290 \<or> c = 65311 \<or> c = 65281)"

text \<open>The line boundaries of \<^verbatim>\<open>str.splitlines\<close>; CR LF counts as one.\<close>

definition is_linebreak :: "nat \<Rightarrow> bool" where
  "is_linebreak c =
     (c = 10 \<or> c = 11 \<or> c = 12 \<or> c = 13 \<or> c = 28 \<or> c = 29 \<or> c = 30 \<or> c = 133
      \<or> c = 8232 \<or> c = 8233)"

fun py_splitlines :: "bool \<Rightarrow> ustring \<Rightarrow> ustring \<Rightarrow> ustring list" where
  "py_splitlines after_cr cur [] = (if cur = [] then [] else [cur])"
| "py_splitlines after_cr cur (c # cs) =
     (if after_cr \<and> c = 10 then py_splitlines False cur cs
      else if is_linebreak c then cur # py_splitlines (c = 13) [] cs
      else py_splitlines False (cur @ [c]) cs)"

text \<open>
  \<^verbatim>\<open>re.search(r"[.!?...]$", s)\<close>: the pattern's \<^verbatim>\<open>$\<close> matches at the end of the string and
  also just before a newline that ends it.
\<close>

definition search_terminal_end :: "ustring \<Rightarrow> bool" where
  "search_terminal_end s =
     (case rev s of
        [] \<Rightarrow> False
      | c # r \<Rightarrow> is_terminal c \<or> (c = 10 \<and> (case r of [] \<Rightarrow> False | d # _ \<Rightarrow> is_terminal d)))"

text \<open>One round of the loop of \<^verbatim>\<open>normalize_line_breaks\<close>, on the text built so far.\<close>

definition normalize_step :: "ustring \<Rightarrow> ustring \<Rightarrow> ustring" where
  "normalize_step normalized line0 =
     (let line = py_strip line0 in
      if line = [] then normalized
      else if last line = 45 then normalized @ butlast line
      else if \<not> search_terminal_end line then normalized @ line @ [32]
      else normalized @ line @ [10])"

definition normalize_line_breaks :: "ustring \<Rightarrow> ustring" where
  "normalize_line_breaks raw_page_text =
     foldl normalize_step [] (py_splitlines False [] raw_page_text)"

text \<open>
  \<^verbatim>\<open>re.split\<close> on the pattern \<^verbatim>\<open>(?<=[.!?...])\s+\<close>: scanning from the left, a run of whitespace
  that directly follows a terminal character is cut out whole, and the text between the
  cuts is returned. \<open>after_term\<close> says whether the code point just read is a terminal.
\<close>

function re_split_sentences :: "bool \<Rightarrow> ustring \<Rightarrow> ustring \<Rightarrow> ustring list" where
  "re_split_sentences after_term cur [] = [cur]"
| "re_split_sentences after_term cur (c # cs) =
     (if after_term \<and> py_isspace c
      then cur # re_split_sentences False [] (dropWhile py_isspace cs)
      else re_split_sentences (is_terminal c) (cur @ [c]) cs)"
  by pat_completeness auto
termination
  by (relation "measure (\<lambda>(a, cur, t). length t)")
    (auto simp: length_dropWhile_le le_imp_less_Suc)

definition split_into_sentences :: "ustring \<Rightarrow> ustring list" where
  "split_into_sentences text =
     filter (\<lambda>s. s \<noteq> []) (map py_strip (re_split_sentences False [] text))"

section \<open>Pages and the page filter\<close>

text \<open>
  What the PDF library hands over for a page: its plain text, its embedded images, its
  rectangle, and the dictionary of \<^verbatim>\<open>get_text("dict")\<close>, whose entries the source reads
  with defaults (\<open>None\<close> is an absent key). Floating-point numbers are taken as reals.
\<close>

record span =
  span_text :: "ustring option"

record text_line =
  line_spans :: "span list option"

record block =
  blk_bbox :: "(real \<times> real \<times> real \<times> real) option"
  blk_type :: "int option"
  blk_lines :: "text_line list option"

record page_dict =
  dict_blocks :: "block list option"
  dict_height :: "real option"

record page =
  page_text :: "ustring option"
  page_images :: "nat list"
  page_dictionary :: page_dict
  rect_width :: real
  rect_height :: real

definition remove_header_footer_blocks :: "page_dict \<Rightarrow> real \<Rightarrow> real \<Rightarrow> block list" where
  "remove_header_footer_blocks pd header_height_ratio footer_height_ratio =
     (let blocks = (case dict_blocks pd of None \<Rightarrow> [] | Some bs \<Rightarrow> bs);
          H = (case dict_height pd of None \<Rightarrow> 0 | Some h \<Rightarrow> h);
          header_limit = H * header_height_ratio;
          footer_limit = H * (1 - footer_height_ratio)
      in filter (\<lambda>blk. case blk_bbox blk of
                          None \<Rightarrow> False
                        | Some (x0, y0, x1, y1) \<Rightarrow> \<not> y1 < header_limit \<and> \<not> y0 > footer_limit)
           blocks)"

text \<open>
  One round of the summing loop; \<^verbatim>\<open>blk['bbox']\<close> raises \<^verbatim>\<open>KeyError\<close> on a block without a
  bounding box, which is the result \<open>None\<close>.
\<close>

definition add_block_area :: "real option \<Rightarrow> block \<Rightarrow> real option" where
  "add_block_area acc blk =
     (case acc of
        None \<Rightarrow> None
      | Some text_area \<Rightarrow>
          if (case blk_type blk of None \<Rightarrow> - 1 | Some t \<Rightarrow> t) = 0 then
            (case blk_bbox blk of
               None \<Rightarrow> None
             | Some (x0, y0, x1, y1) \<Rightarrow> Some (text_area + max 0 (x1 - x0) * max 0 (y1 - y0)))
          else Some text_area)"

definition compute_text_block_area_ratio ::
  "page \<Rightarrow> page_dict \<Rightarrow> real \<Rightarrow> real \<Rightarrow> real option" where
  "compute_text_block_area_ratio pg pd header_height_ratio footer_height_ratio =
     (let page_area = rect_width pg * rect_height pg in
      if page_area \<le> 0 then Some 0
      else map_option (\<lambda>text_area. text_area / page_area)
             (foldl add_block_area (Some 0)
                (remove_header_footer_blocks pd header_height_ratio footer_height_ratio)))"

text \<open>
  The reading of the specification of the text-block area ratio: the blocks that have a
  bounding box lying neither wholly above the header limit nor wholly below the footer
  limit are kept, the areas of the text blocks among them are summed, and the sum is
  divided by the area of the page; a page of no area has ratio 0.
\<close>

definition is_text_block :: "block \<Rightarrow> bool" where
  "is_text_block blk = (blk_type blk = Some 0)"

definition bbox_area :: "block \<Rightarrow> real" where
  "bbox_area blk =
     (case blk_bbox blk of
        None \<Rightarrow> 0
      | Some (x0, y0, x1, y1) \<Rightarrow> max 0 (x1 - x0) * max 0 (y1 - y0))"

definition in_body_band :: "real \<Rightarrow> real \<Rightarrow> real \<Rightarrow> block \<Rightarrow> bool" where
  "in_body_band H header_ratio footer_ratio blk =
     (case blk_bbox blk of
        None \<Rightarrow> False
      | Some (x0, y0, x1, y1) \<Rightarrow>
          \<not> (y1 < H * header_ratio) \<and> \<not> (y0 > H * (1 - footer_ratio)))"

definition text_area_ratio_spec :: "page \<Rightarrow> page_dict \<Rightarrow> real \<Rightarrow> real \<Rightarrow> real" where
  "text_area_ratio_spec pg pd header_ratio footer_ratio =
     (if rect_width pg * rect_height pg \<le> 0 then 0
      else sum_list (map bbox_area
             (filter is_text_block
                (filter (in_body_band (case dict_height pd of None \<Rightarrow> 0 | Some h \<Rightarrow> h)
                           header_ratio footer_ratio)
                   (case dict_blocks pd of None \<Rightarrow> [] | Some bs \<Rightarrow> bs))))
           / (rect_width pg * rect_height pg))"

text \<open>
  \<^verbatim>\<open>len(re.findall(pattern, text))\<close>: matches are looked for from the left and do not
  overlap. \<open>m\<close> gives the length of the match that starts a text, if there is one; \<open>skip\<close>
  counts the code points still inside the last match.
\<close>

fun count_matches :: "(ustring \<Rightarrow> nat option) \<Rightarrow> nat \<Rightarrow> ustring \<Rightarrow> nat" where
  "count_matches m skip [] = 0"
| "count_matches m (Suc skip) (c # cs) = count_matches m skip cs"
| "count_matches m 0 (c # cs) =
     (case m (c # cs) of
        None \<Rightarrow> count_matches m 0 cs
      | Some n \<Rightarrow> Suc (count_matches m (n - 1) cs))"

text \<open>The tail \<^verbatim>\<open>\s*\d+\<close> of both caption patterns: its length where it matches.\<close>

definition match_space_digits :: "ustring \<Rightarrow> nat option" where
  "match_space_digits t =
     (let ws = takeWhile py_isspace t;
          ds = takeWhile (\<lambda>c. py_decimal c \<noteq> None) (dropWhile py_isspace t)
      in if ds = [] then None else Some (length ws + length ds))"

text \<open>The pattern of the Korean word for table, U+D45C, followed by \<^verbatim>\<open>\s*\d+\<close>.\<close>

definition match_caption_ko :: "ustring \<Rightarrow> nat option" where
  "match_caption_ko t =
     (case t of
        [] \<Rightarrow> None
      | c # cs \<Rightarrow> if c = 54364 then map_option Suc (match_space_digits cs) else None)"

text \<open>
  A letter of a pattern under \<^verbatim>\<open>re.IGNORECASE\<close>, given in lower case: it matches both cases,
  and \<^verbatim>\<open>i\<close> also matches U+0130 and U+0131.
\<close>

definition letter_ignorecase :: "nat \<Rightarrow> nat \<Rightarrow> bool" where
  "letter_ignorecase p c = (c = p \<or> c + 32 = p \<or> (p = 105 \<and> (c = 304 \<or> c = 305)))"

fun word_ignorecase :: "ustring \<Rightarrow> ustring \<Rightarrow> ustring option" where
  "word_ignorecase [] t = Some t"
| "word_ignorecase (p # ps) [] = None"
| "word_ignorecase (p # ps) (c # cs) =
     (if letter_ignorecase p c then word_ignorecase ps cs else None)"

text \<open>The pattern \<^verbatim>\<open>(Table|Figure)\s*\d+\<close> under \<^verbatim>\<open>re.IGNORECASE\<close>.\<close>

definition match_caption_en :: "ustring \<Rightarrow> nat option" where
  "match_caption_en t =
     (case word_ignorecase (ustr ''table'') t of
        Some r \<Rightarrow> map_option (\<lambda>n. 5 + n) (match_space_digits r)
      | None \<Rightarrow>
          (case word_ignorecase (ustr ''figure'') t of
             Some r \<Rightarrow> map_option (\<lambda>n. 6 + n) (match_space_digits r)
           | None \<Rightarrow> None))"

text \<open>The plain text of the whole page, and the number of caption matches in a text.\<close>

definition full_page_text :: "page \<Rightarrow> ustring" where
  "full_page_text pg = (case page_text pg of None \<Rightarrow> [] | Some t \<Rightarrow> t)"

definition caption_count :: "ustring \<Rightarrow> nat" where
  "caption_count raw_text =
     count_matches match_caption_ko 0 raw_text + count_matches match_caption_en 0 raw_text"

text \<open>
  The five checks in the order of the source. The result \<open>None\<close> stands for an exception
  raised by the area computation.
\<close>

definition should_skip_page ::
  "page \<Rightarrow> int \<Rightarrow> int set \<Rightarrow> int \<Rightarrow> int \<Rightarrow> bool \<Rightarrow> real \<Rightarrow> real \<Rightarrow> real \<Rightarrow> bool option" where
  "should_skip_page pg page_num_1based skip_pgs min_len threshold skip_image min_ratio
       header_ratio footer_ratio =
     (if page_num_1based \<in> skip_pgs then Some True
      else
        let raw_text = (case page_text pg of None \<Rightarrow> [] | Some t \<Rightarrow> t) in
        if int (length (py_strip raw_text)) < min_len then Some True
        else
          let cnt_ko = count_matches match_caption_ko 0 raw_text;
              cnt_en = count_matches match_caption_en 0 raw_text in
          if int (cnt_ko + cnt_en) \<ge> threshold then Some True
          else if skip_image \<and> page_images pg \<noteq> [] then Some True
          else
            (case compute_text_block_area_ratio pg (page_dictionary pg)
                    header_ratio footer_ratio of
               None \<Rightarrow> None
             | Some ratio \<Rightarrow> if ratio < min_ratio then Some True else Some False))"

section \<open>The page walk of extract_sentences_with_page\<close>

text \<open>The options of the extraction, as \<^verbatim>\<open>extract_sentences_with_page\<close> receives them.\<close>

record config =
  skip_pages :: "int set"
  min_text_len :: int
  table_threshold :: int
  skip_if_image :: bool
  min_text_ratio :: real
  remove_header_footer :: bool
  header_height_ratio :: real
  footer_height_ratio :: real

text \<open>The two variables that live across the rounds of the page loop.\<close>

record carry =
  carryover_fragment :: ustring
  carryover_page :: "int option"

type_synonym sentence_record = "int \<times> ustring"

text \<open>\<^verbatim>\<open>sep.join(parts)\<close> and \<^verbatim>\<open>s.startswith(prefix)\<close>.\<close>

fun py_join :: "ustring \<Rightarrow> ustring list \<Rightarrow> ustring" where
  "py_join sep [] = []"
| "py_join sep [x] = x"
| "py_join sep (x # y # ys) = x @ sep @ py_join sep (y # ys)"

definition py_startswith :: "ustring \<Rightarrow> ustring \<Rightarrow> bool" where
  "py_startswith s pre = (take (length pre) s = pre)"

text \<open>The stripped, non-empty span texts of one block, line by line.\<close>

definition block_span_texts :: "block \<Rightarrow> ustring list" where
  "block_span_texts blk =
     concat (map (\<lambda>ln. filter (\<lambda>t. t \<noteq> [])
                          (map (\<lambda>sp. py_strip (case span_text sp of None \<Rightarrow> [] | Some t \<Rightarrow> t))
                             (case line_spans ln of None \<Rightarrow> [] | Some sps \<Rightarrow> sps)))
               (case blk_lines blk of None \<Rightarrow> [] | Some lns \<Rightarrow> lns))"

text \<open>Step 2 of the loop body: the text of the page that is normalised.\<close>

definition raw_page_text :: "config \<Rightarrow> page \<Rightarrow> ustring" where
  "raw_page_text cfg pg =
     (if remove_header_footer cfg then
        py_join [10]
          (concat (map block_span_texts
             (filter (\<lambda>blk. (case blk_type blk of None \<Rightarrow> - 1 | Some t \<Rightarrow> t) = 0)
                (remove_header_footer_blocks (page_dictionary pg)
                   (header_height_ratio cfg) (footer_height_ratio cfg)))))
      else (case page_text pg of None \<Rightarrow> [] | Some t \<Rightarrow> t))"

text \<open>
  Steps 3 to 7 for a page that is not skipped: the carry after the page and the records
  \<open>(st_pg, sent)\<close> written for it, in order.
\<close>

definition process_text :: "int \<Rightarrow> ustring \<Rightarrow> carry \<Rightarrow> carry \<times> sentence_record list" where
  "process_text page_num raw st =
     (let normalized0 = normalize_line_breaks raw;
          (normalized, start_page_for_carry, st1) =
             (if carryover_fragment st \<noteq> []
              then (carryover_fragment st @ [32] @ normalized0, carryover_page st,
                    \<lparr>carryover_fragment = [], carryover_page = None\<rparr>)
              else (normalized0, Some page_num, st));
          sents0 = split_into_sentences normalized;
          (sents, st2) =
             (if sents0 \<noteq> [] \<and> \<not> search_terminal_end (last sents0)
              then (butlast sents0,
                    \<lparr>carryover_fragment = last sents0, carryover_page = start_page_for_carry\<rparr>)
              else (sents0, st1))
      in (st2,
          map (\<lambda>sent.
                 (case carryover_page st2 of
                    None \<Rightarrow> page_num
                  | Some cp \<Rightarrow>
                      if py_startswith sent (carryover_fragment st2) then cp else page_num,
                  sent))
            sents))"

text \<open>
  The call of \<^verbatim>\<open>should_skip_page\<close> in the page loop, and one round of the loop; \<open>None\<close> is
  an exception leaving the loop.
\<close>

definition skip_decision :: "config \<Rightarrow> int \<Rightarrow> page \<Rightarrow> bool option" where
  "skip_decision cfg page_num pg =
     should_skip_page pg page_num (skip_pages cfg) (min_text_len cfg)
       (table_threshold cfg) (skip_if_image cfg) (min_text_ratio cfg)
       (header_height_ratio cfg) (footer_height_ratio cfg)"

definition process_page ::
  "config \<Rightarrow> int \<Rightarrow> page \<Rightarrow> carry \<Rightarrow> (carry \<times> sentence_record list) option" where
  "process_page cfg page_num pg st =
     (case skip_decision cfg page_num pg of
        None \<Rightarrow> None
      | Some True \<Rightarrow> Some (st, [])
      | Some False \<Rightarrow> Some (process_text page_num (raw_page_text cfg pg) st))"

fun extract_loop ::
  "config \<Rightarrow> carry \<Rightarrow> (int \<times> page) list \<Rightarrow> (carry \<times> sentence_record list) option" where
  "extract_loop cfg st [] = Some (st, [])"
| "extract_loop cfg st ((page_num, pg) # rest) =
     (case process_page cfg page_num pg st of
        None \<Rightarrow> None
      | Some (st1, recs) \<Rightarrow>
          (case extract_loop cfg st1 rest of
             None \<Rightarrow> None
           | Some (st2, recs2) \<Rightarrow> Some (st2, recs @ recs2)))"

text \<open>\<^verbatim>\<open>for page_index in range(total_pages)\<close> with \<^verbatim>\<open>page_num = page_index + 1\<close>.\<close>

definition numbered_pages :: "page list \<Rightarrow> (int \<times> page) list" where
  "numbered_pages doc = map (\<lambda>page_index. (int page_index + 1, doc ! page_index)) [0..<length doc]"

definition initial_carry :: carry where
  "initial_carry = \<lparr>carryover_fragment = [], carryover_page = None\<rparr>"

text \<open>
  The sentences written by the whole walk, each with the page number it is filed under.
  Writing the files and the CSV or JSON export are left out.
\<close>

definition extract_sentences_with_page :: "config \<Rightarrow> page list \<Rightarrow> sentence_record list option" where
  "extract_sentences_with_page cfg doc =
     map_option snd (extract_loop cfg initial_carry (numbered_pages doc))"

section \<open>Readings of the specification and example inputs\<close>

text \<open>A page of plain text with no block and no image, and options under which it is read.\<close>

definition text_page :: "ustring \<Rightarrow> page" where
  "text_page t =
     \<lparr>page_text = Some t, page_images = [],
      page_dictionary = \<lparr>dict_blocks = Some [], dict_height = Some 792\<rparr>,
      rect_width = 612, rect_height = 792\<rparr>"

definition plain_config :: "int set \<Rightarrow> config" where
  "plain_config skips =
     \<lparr>skip_pages = skips, min_text_len = 1, table_threshold = 3, skip_if_image = False,
      min_text_ratio = 0, remove_header_footer = False,
      header_height_ratio = 0.05, footer_height_ratio = 0.05\<rparr>"

text \<open>
  A page with a header block, a footer block, a text block without bounding box, an image
  block and a text block in the body; and a text of three Korean table captions.
\<close>

definition layout_blocks :: "block list" where
  "layout_blocks =
     [\<lparr>blk_bbox = Some (50, 10, 500, 30), blk_type = Some 0, blk_lines = None\<rparr>,
      \<lparr>blk_bbox = Some (50, 760, 500, 780), blk_type = Some 0, blk_lines = None\<rparr>,
      \<lparr>blk_bbox = None, blk_type = Some 0, blk_lines = None\<rparr>,
      \<lparr>blk_bbox = Some (100, 300, 300, 500), blk_type = Some 1, blk_lines = None\<rparr>,
      \<lparr>blk_bbox = Some (100, 100, 300, 200), blk_type = Some 0, blk_lines = None\<rparr>]"

definition layout_page :: "real \<Rightarrow> real \<Rightarrow> page" where
  "layout_page w h =
     \<lparr>page_text = Some (ustr ''Body text.''), page_images = [],
      page_dictionary = \<lparr>dict_blocks = Some layout_blocks, dict_height = Some h\<rparr>,
      rect_width = w, rect_height = h\<rparr>"

definition captions_ko :: ustring where
  "captions_ko = [54364, 32, 49, 32, 54364, 32, 50, 32, 54364, 32, 51]"

text \<open>
  The reading of the specification of the normaliser: what one trimmed, non-blank line
  adds to the text, and the text as the pieces of the lines in order.
\<close>

definition line_piece :: "ustring \<Rightarrow> ustring" where
  "line_piece l =
     (if last l = 45 then butlast l
      else if \<not> is_terminal (last l) then l @ [32]
      else l @ [10])"

definition normalize_spec :: "ustring \<Rightarrow> ustring" where
  "normalize_spec raw =
     concat (map line_piece
       (filter (\<lambda>l. l \<noteq> []) (map py_strip (py_splitlines False [] raw))))"

text \<open>The content of a text: its code points that are not whitespace, in order.\<close>

definition visible :: "ustring \<Rightarrow> ustring" where
  "visible s = filter (\<lambda>c. \<not> py_isspace c) s"

text \<open>The text that is split on a page: the pending fragment, a space, the normalised text.\<close>

definition merged_text :: "carry \<Rightarrow> ustring \<Rightarrow> ustring" where
  "merged_text st raw =
     (if carryover_fragment st \<noteq> []
      then carryover_fragment st @ [32] @ normalize_line_breaks raw
      else normalize_line_breaks raw)"

text \<open>
  The example of the specification: pages 1 to 4 are skipped, page 5 ends in the middle of
  a sentence and page 6 completes it.
\<close>

definition wrap_doc :: "page list" where
  "wrap_doc =
     [text_page [], text_page [], text_page [], text_page [],
      text_page (ustr ''This is a sentence that wraps onto the next''),
      text_page (ustr ''page and ends here. Another full sentence.'')]"

text \<open>
  A numbered page that the filter lets through, and the normalised text of the pages of a
  document that it lets through, one after the other.
\<close>

definition page_included :: "config \<Rightarrow> int \<times> page \<Rightarrow> bool" where
  "page_included cfg np = (skip_decision cfg (fst np) (snd np) = Some False)"

definition document_text :: "config \<Rightarrow> (int \<times> page) list \<Rightarrow> ustring" where
  "document_text cfg nps =
     concat (map (\<lambda>np. normalize_line_breaks (raw_page_text cfg (snd np)))
               (filter (page_included cfg) nps))"

text \<open>Documents of one, two and three pages of plain text for the examples below.\<close>

definition padded_doc :: "page list" where
  "padded_doc = [text_page (ustr ''  Hello world.  Bye. '')]"


definition skipped_middle_doc :: "page list" where
  "skipped_middle_doc =
     [text_page (ustr ''Foo''), text_page (ustr ''junk.''), text_page (ustr ''bar.'')]"

definition two_line_doc :: "page list" where
  "two_line_doc = [text_page (ustr ''A.'' @ [10] @ ustr ''B.'')]"

definition carry_doc :: "page list" where
  "carry_doc = [text_page (ustr ''One. Two''), text_page (ustr ''three. Four'')]"

definition short_carry_doc :: "page list" where
  "short_carry_doc = [text_page (ustr ''Foo''), text_page (ustr ''bar.'')]"

definition prefix_doc :: "page list" where
  "prefix_doc = [text_page (ustr ''Foo''), text_page (ustr ''bar. Foo baz. Foo'')]"

section \<open>Properties of parse_skip_pages\<close>

lemma py_strip_Nil: "py_strip [] = []"
  by (simp add: py_strip_def)

lemma py_int_Nil: "py_int [] = None"
  by (simp add: py_int_def py_strip_Nil)

lemma parse_part_token_pages: "parse_part skips tok = skips \<union> token_pages tok"
  by (auto simp: parse_part_def token_pages_def bare_integer_def lo_hi_token_def Let_def
      py_strip_Nil py_int_Nil split: option.splits)

lemma foldl_parse_part:
  "foldl parse_part skips toks = skips \<union> (\<Union>tok \<in> set toks. token_pages tok)"
proof (induction toks arbitrary: skips)
  case Nil
  show ?case by simp
next
  case (Cons tok toks)
  have "foldl parse_part skips (tok # toks) = foldl parse_part (parse_part skips tok) toks"
    by simp
  also have "\<dots> = parse_part skips tok \<union> (\<Union>t \<in> set toks. token_pages t)"
    by (rule Cons.IH)
  also have "\<dots> = skips \<union> (\<Union>t \<in> set (tok # toks). token_pages t)"
    by (auto simp: parse_part_token_pages)
  finally show ?case .
qed

lemmas eval_chars =
  ustr_def py_strip_def py_isspace_def py_int_def py_decimal_def decimal_blocks_def

text \<open>
  Claim C9. For every input string, \<open>parse_skip_pages\<close> returns the union over the
  comma-separated tokens of: the singleton of a bare integer, the inclusive range of a
  \<open>lo-hi\<close> token with \<open>lo \<le> hi\<close>, and nothing for a malformed token or a range with
  \<open>lo > hi\<close>; the string "1,2,5-7" parses to \<open>{1,2,5,6,7}\<close>.
\<close>

theorem parse_skip_pages_union:
  "parse_skip_pages skip_str = skip_pages_spec skip_str
   \<and> parse_skip_pages (ustr ''1,2,5-7'') = {1, 2, 5, 6, 7}"
proof
  show "parse_skip_pages skip_str = skip_pages_spec skip_str"
    by (simp add: parse_skip_pages_def skip_pages_spec_def foldl_parse_part)
  have "parse_skip_pages (ustr ''1,2,5-7'') = {1, 2} \<union> set [5..7]"
    by (simp add: parse_skip_pages_def parse_part_def eval_chars) auto
  also have "\<dots> = {1, 2, 5, 6, 7}"
    by (simp add: upto.simps) auto
  finally show "parse_skip_pages (ustr ''1,2,5-7'') = {1, 2, 5, 6, 7}" .
qed

text \<open>
  A malformed token, a reversed range and an empty token contribute nothing, and the
  tokens after them are still read.
\<close>

theorem parse_skip_pages_union_witness:
  "skip_pages_spec (ustr ''1,x,7-5,,4'') = {1, 4}
   \<and> parse_skip_pages (ustr ''1,2,5-7'') = {1, 2, 5, 6, 7}"
proof -
  have "parse_skip_pages (ustr ''1,x,7-5,,4'') = {1, 4}"
    by (simp add: parse_skip_pages_def parse_part_def eval_chars) auto
  with parse_skip_pages_union [of "ustr ''1,x,7-5,,4''"] show ?thesis
    by simp
qed

section \<open>Properties of the page filter\<close>

lemma remove_header_footer_blocks_filter:
  "remove_header_footer_blocks pd hr fr =
     filter (in_body_band (case dict_height pd of None \<Rightarrow> 0 | Some h \<Rightarrow> h) hr fr)
       (case dict_blocks pd of None \<Rightarrow> [] | Some bs \<Rightarrow> bs)"
  unfolding remove_header_footer_blocks_def Let_def in_body_band_def ..

lemma foldl_add_block_area:
  "\<forall>blk \<in> set bs. blk_bbox blk \<noteq> None \<Longrightarrow>
   foldl add_block_area (Some a) bs =
     Some (a + sum_list (map bbox_area (filter is_text_block bs)))"
proof (induction bs arbitrary: a)
  case Nil
  show ?case by simp
next
  case (Cons b bs)
  then obtain x0 y0 x1 y1 where bb: "blk_bbox b = Some (x0, y0, x1, y1)"
    by (cases "blk_bbox b") auto
  have rest: "\<forall>blk \<in> set bs. blk_bbox blk \<noteq> None"
    using Cons.prems by simp
  show ?case
  proof (cases "is_text_block b")
    case True
    then have "add_block_area (Some a) b = Some (a + bbox_area b)"
      by (simp add: add_block_area_def is_text_block_def bbox_area_def bb)
    then show ?thesis
      using True Cons.IH [OF rest, of "a + bbox_area b"] by (simp add: add.assoc)
  next
    case False
    then have "add_block_area (Some a) b = Some a"
      by (auto simp: add_block_area_def is_text_block_def split: option.splits)
    then show ?thesis
      using False Cons.IH [OF rest, of a] by simp
  qed
qed

lemma compute_ratio_Some:
  "compute_text_block_area_ratio pg pd hr fr = Some (text_area_ratio_spec pg pd hr fr)"
proof -
  let ?bs = "remove_header_footer_blocks pd hr fr"
  have "\<forall>blk \<in> set ?bs. blk_bbox blk \<noteq> None"
    by (auto simp: remove_header_footer_blocks_filter in_body_band_def split: option.splits)
  then have "foldl add_block_area (Some 0) ?bs =
      Some (0 + sum_list (map bbox_area (filter is_text_block ?bs)))"
    by (rule foldl_add_block_area)
  then show ?thesis
    by (simp add: compute_text_block_area_ratio_def text_area_ratio_spec_def Let_def
        remove_header_footer_blocks_filter)
qed

lemma should_skip_page_Some:
  "should_skip_page pg n skips ml th si mr hr fr =
     Some (n \<in> skips
           \<or> int (length (py_strip (full_page_text pg))) < ml
           \<or> th \<le> int (caption_count (full_page_text pg))
           \<or> (si \<and> page_images pg \<noteq> [])
           \<or> text_area_ratio_spec pg (page_dictionary pg) hr fr < mr)"
  by (simp add: should_skip_page_def Let_def compute_ratio_Some caption_count_def
      full_page_text_def)

text \<open>
  Claim C7. The text-block area ratio drops every block that has no bounding box or whose
  box lies wholly above the header limit (\<open>y1 < height * headerRatio\<close>) or wholly below the
  footer limit (\<open>y0 > height * (1 - footerRatio)\<close>), sums the box areas of the text blocks
  that remain and divides by width times height; no error is raised, and the ratio is 0
  when the page area is not positive.
\<close>

theorem text_block_area_ratio:
  "compute_text_block_area_ratio pg pd hr fr = Some (text_area_ratio_spec pg pd hr fr)
   \<and> (rect_width pg * rect_height pg \<le> 0 \<longrightarrow>
        compute_text_block_area_ratio pg pd hr fr = Some 0)"
  by (simp add: compute_ratio_Some text_area_ratio_spec_def)

theorem text_block_area_ratio_witness:
  "compute_text_block_area_ratio (layout_page 612 792)
      (page_dictionary (layout_page 612 792)) 0.05 0.05 = Some (20000 / 484704)
   \<and> rect_width (layout_page 0 792) * rect_height (layout_page 0 792) \<le> 0
   \<and> compute_text_block_area_ratio (layout_page 0 792)
        (page_dictionary (layout_page 0 792)) 0.05 0.05 = Some 0"
proof -
  have spec: "text_area_ratio_spec (layout_page 612 792)
          (page_dictionary (layout_page 612 792)) 0.05 0.05 = 20000 / 484704"
    by (simp add: text_area_ratio_spec_def layout_page_def layout_blocks_def
        in_body_band_def is_text_block_def bbox_area_def)
  have area: "rect_width (layout_page 0 792) * rect_height (layout_page 0 792) \<le> 0"
    by (simp add: layout_page_def)
  have one: "compute_text_block_area_ratio (layout_page 612 792)
      (page_dictionary (layout_page 612 792)) 0.05 0.05 = Some (20000 / 484704)"
    using text_block_area_ratio [of "layout_page 612 792"
        "page_dictionary (layout_page 612 792)" "0.05" "0.05"]
    by (simp only: spec)
  have two: "compute_text_block_area_ratio (layout_page 0 792)
        (page_dictionary (layout_page 0 792)) 0.05 0.05 = Some 0"
    using text_block_area_ratio [of "layout_page 0 792"
        "page_dictionary (layout_page 0 792)" "0.05" "0.05"] area
    by blast
  from one area two show ?thesis
    by blast
qed

text \<open>
  Claim C5. \<open>should_skip_page\<close> answers true exactly when one of the five checks, taken in
  order, matches: the page number is in the skip set; the stripped plain text of the whole
  page is shorter than the minimum length; the caption matches number at least the
  threshold; images are to be skipped and the page has one; the text-block area ratio is
  below the minimum. The text of check 2 is the full page text whatever the
  \<open>remove_header_footer\<close> option says, which the decision does not read.
\<close>

theorem should_skip_page_checks:
  "should_skip_page pg n skips ml th si mr hr fr =
     Some (n \<in> skips
           \<or> int (length (py_strip (full_page_text pg))) < ml
           \<or> th \<le> int (caption_count (full_page_text pg))
           \<or> (si \<and> page_images pg \<noteq> [])
           \<or> text_area_ratio_spec pg (page_dictionary pg) hr fr < mr)
   \<and> skip_decision (cfg\<lparr>remove_header_footer := b\<rparr>) n pg = skip_decision cfg n pg"
  by (simp add: should_skip_page_Some skip_decision_def)

lemma caption_count_ko: "caption_count captions_ko = 3"
  by (simp add: caption_count_def captions_ko_def match_caption_ko_def match_caption_en_def
      match_space_digits_def eval_chars letter_ignorecase_def)

theorem should_skip_page_checks_witness:
  "should_skip_page (text_page captions_ko) 3 {1, 2} 1 3 False 0 0.05 0.05 = Some True
   \<and> should_skip_page (text_page captions_ko) 3 {1, 2} 1 4 False 0 0.05 0.05 = Some False
   \<and> skip_decision ((plain_config {1, 2})\<lparr>remove_header_footer := True\<rparr>) 3
        (text_page captions_ko) = skip_decision (plain_config {1, 2}) 3 (text_page captions_ko)"
proof -
  have strip: "py_strip captions_ko = captions_ko"
    by (simp add: captions_ko_def py_strip_def py_isspace_def)
  have len: "length captions_ko = 11"
    by (simp add: captions_ko_def)
  show ?thesis
    using should_skip_page_checks [of "text_page captions_ko" 3 "{1, 2}" 1 3 False 0 "0.05" "0.05"
        True "plain_config {1, 2}"]
      should_skip_page_checks [of "text_page captions_ko" 3 "{1, 2}" 1 4 False 0 "0.05" "0.05"
        True "plain_config {1, 2}"]
    by (simp add: full_page_text_def text_page_def text_area_ratio_spec_def strip len
        caption_count_ko)
qed

section \<open>Properties of the normaliser and the splitter\<close>

lemma py_strip_last: "py_strip s \<noteq> [] \<Longrightarrow> \<not> py_isspace (last (py_strip s))"
proof -
  assume ne: "py_strip s \<noteq> []"
  let ?ys = "dropWhile py_isspace (rev (dropWhile py_isspace s))"
  from ne have "?ys \<noteq> []"
    by (simp add: py_strip_def)
  then have "\<not> py_isspace (hd ?ys)"
    by (rule hd_dropWhile)
  moreover have "last (py_strip s) = hd ?ys"
    using \<open>?ys \<noteq> []\<close> by (simp add: py_strip_def last_rev)
  ultimately show ?thesis by simp
qed

lemma last_dropWhile: "dropWhile P xs \<noteq> [] \<Longrightarrow> last (dropWhile P xs) = last xs"
  by (induction xs) (auto split: if_splits)

lemma py_strip_hd: "py_strip s \<noteq> [] \<Longrightarrow> \<not> py_isspace (hd (py_strip s))"
proof -
  assume ne: "py_strip s \<noteq> []"
  let ?xs = "dropWhile py_isspace s"
  let ?ys = "dropWhile py_isspace (rev ?xs)"
  from ne have ys: "?ys \<noteq> []"
    by (simp add: py_strip_def)
  have xs: "?xs \<noteq> []"
  proof
    assume e: "?xs = []"
    have "?ys = []" unfolding e by simp
    with ys show False by blast
  qed
  have "hd (py_strip s) = last ?ys"
    using ys by (simp add: py_strip_def hd_rev)
  also have "\<dots> = last (rev ?xs)"
    using ys by (rule last_dropWhile)
  also have "\<dots> = hd ?xs"
    using xs by (simp add: last_rev)
  finally show ?thesis
    using hd_dropWhile [OF xs] by simp
qed

lemma search_terminal_end_last:
  "l \<noteq> [] \<Longrightarrow> \<not> py_isspace (last l) \<Longrightarrow> search_terminal_end l = is_terminal (last l)"
proof -
  assume ne: "l \<noteq> []" and sp: "\<not> py_isspace (last l)"
  from ne obtain c r where rl: "rev l = c # r"
    by (cases "rev l") auto
  then have "last l = c"
    by (metis last_rev list.sel(1) rev_rev_ident)
  with sp have "c \<noteq> 10"
    by (auto simp: py_isspace_def)
  with rl \<open>last l = c\<close> show ?thesis
    by (simp add: search_terminal_end_def)
qed

lemma normalize_step_piece:
  "normalize_step acc line =
     acc @ (if py_strip line = [] then [] else line_piece (py_strip line))"
  using py_strip_last [of line]
  by (simp add: normalize_step_def Let_def line_piece_def search_terminal_end_last)

lemma foldl_normalize_step:
  "foldl normalize_step acc ls =
     acc @ concat (map line_piece (filter (\<lambda>l. l \<noteq> []) (map py_strip ls)))"
  by (induction ls arbitrary: acc) (simp_all add: normalize_step_piece)

lemmas eval_text =
  normalize_line_breaks_def normalize_step_def split_into_sentences_def
  search_terminal_end_def is_terminal_def is_linebreak_def Let_def

text \<open>
  Claim C6. The normaliser goes through the lines from the top, each trimmed of the
  whitespace around it, and skips the blank ones: a line ending in a hyphen is added without
  the hyphen and nothing after it, so the next line follows directly; a line not ending in
  a terminal character is added with one space after it; a line ending in a terminal
  character is added with a newline after it. The two lines "Line one-" and "Line two."
  become "Line oneLine two." with a newline after it, which splits into the one sentence
  "Line oneLine two.".
\<close>

theorem normalize_line_breaks_lines:
  "normalize_line_breaks raw = normalize_spec raw
   \<and> normalize_line_breaks (ustr ''Line one-'' @ [10] @ ustr ''Line two.'')
       = ustr ''Line oneLine two.'' @ [10]
   \<and> split_into_sentences (ustr ''Line oneLine two.'' @ [10]) = [ustr ''Line oneLine two.'']"
proof (intro conjI)
  show "normalize_line_breaks raw = normalize_spec raw"
    by (simp add: normalize_line_breaks_def normalize_spec_def foldl_normalize_step)
  show "normalize_line_breaks (ustr ''Line one-'' @ [10] @ ustr ''Line two.'')
       = ustr ''Line oneLine two.'' @ [10]"
    by (simp add: eval_text eval_chars)
  show "split_into_sentences (ustr ''Line oneLine two.'' @ [10]) = [ustr ''Line oneLine two.'']"
    by (simp add: eval_text eval_chars)
qed

text \<open>
  The three kinds of line at once, with whitespace around the lines and a blank line
  between them.
\<close>

theorem normalize_line_breaks_lines_witness:
  "normalize_spec (ustr '' soft wrap '' @ [10, 10] @ ustr ''hyph-'' @ [10] @ ustr ''en end.  '')
     = ustr ''soft wrap hyphen end.'' @ [10]"
proof -
  have "normalize_line_breaks
          (ustr '' soft wrap '' @ [10, 10] @ ustr ''hyph-'' @ [10] @ ustr ''en end.  '')
        = ustr ''soft wrap hyphen end.'' @ [10]"
    by (simp add: eval_text eval_chars)
  with normalize_line_breaks_lines
    [of "ustr '' soft wrap '' @ [10, 10] @ ustr ''hyph-'' @ [10] @ ustr ''en end.  ''"]
  show ?thesis by simp
qed

section \<open>Properties of the page walk\<close>

lemma visible_append: "visible (a @ b) = visible a @ visible b"
  by (simp add: visible_def)

lemma visible_dropWhile: "visible (dropWhile py_isspace s) = visible s"
  by (induction s) (simp_all add: visible_def)

lemma visible_rev: "visible (rev s) = rev (visible s)"
  by (simp add: visible_def rev_filter)

lemma visible_strip: "visible (py_strip s) = visible s"
  by (simp add: py_strip_def visible_rev visible_dropWhile)

lemma visible_space: "visible (32 # s) = visible s"
  by (simp add: visible_def py_isspace_def)

lemma visible_re_split:
  "visible (concat (re_split_sentences a cur t)) = visible cur @ visible t"
proof (induction a cur t rule: re_split_sentences.induct)
  case (1 a cur)
  show ?case by (simp add: visible_def)
next
  case (2 a cur c cs)
  show ?case
  proof (cases "a \<and> py_isspace c")
    case True
    then have "visible (concat (re_split_sentences a cur (c # cs)))
        = visible cur @ visible (concat (re_split_sentences False [] (dropWhile py_isspace cs)))"
      by (simp add: visible_append)
    also have "\<dots> = visible cur @ visible (dropWhile py_isspace cs)"
      using "2.IH"(1) [OF True] by (simp add: visible_def)
    also have "\<dots> = visible cur @ visible (c # cs)"
      using True by (simp add: visible_dropWhile) (simp add: visible_def)
    finally show ?thesis .
  next
    case False
    then have "visible (concat (re_split_sentences a cur (c # cs)))
        = visible (concat (re_split_sentences (is_terminal c) (cur @ [c]) cs))"
      by auto
    also have "\<dots> = visible (cur @ [c]) @ visible cs"
      using "2.IH"(2) [OF False] .
    finally show ?thesis
      by (simp add: visible_def)
  qed
qed

lemma visible_strip_all:
  "visible (concat (filter (\<lambda>s. s \<noteq> []) (map py_strip xs))) = visible (concat xs)"
proof (induction xs)
  case Nil
  show ?case by simp
next
  case (Cons x xs)
  have "visible (py_strip x) = visible x"
    by (rule visible_strip)
  then show ?case
    using Cons.IH by (cases "py_strip x = []") (auto simp: visible_append visible_def)
qed

lemma visible_split_into_sentences: "visible (concat (split_into_sentences t)) = visible t"
  by (simp add: split_into_sentences_def visible_strip_all visible_re_split)
    (simp add: visible_def)

lemma sentence_trimmed:
  "s \<in> set (split_into_sentences t) \<Longrightarrow>
     s \<noteq> [] \<and> \<not> py_isspace (hd s) \<and> \<not> py_isspace (last s)"
  by (auto simp: split_into_sentences_def py_strip_hd py_strip_last)

text \<open>The loop body without its nested bindings.\<close>

lemma process_text_unfold:
  "process_text n raw st =
     (let pending = (carryover_fragment st \<noteq> []);
          merged = (if pending then carryover_fragment st @ [32] @ normalize_line_breaks raw
                    else normalize_line_breaks raw);
          origin = (if pending then carryover_page st else Some n);
          st1 = (if pending then \<lparr>carryover_fragment = [], carryover_page = None\<rparr> else st);
          sents0 = split_into_sentences merged
      in if sents0 \<noteq> [] \<and> \<not> search_terminal_end (last sents0)
         then (\<lparr>carryover_fragment = last sents0, carryover_page = origin\<rparr>,
               map (\<lambda>sent. (case origin of
                                None \<Rightarrow> n
                              | Some cp \<Rightarrow> if py_startswith sent (last sents0) then cp else n,
                              sent))
                 (butlast sents0))
         else (st1,
               map (\<lambda>sent. (case carryover_page st1 of
                                None \<Rightarrow> n
                              | Some cp \<Rightarrow>
                                  if py_startswith sent (carryover_fragment st1) then cp else n,
                              sent))
                 sents0))"
  by (simp add: process_text_def Let_def cong: option.case_cong if_cong)

lemma process_text_shape:
  assumes "process_text n raw st = (st2, recs)"
  shows "(split_into_sentences (merged_text st raw) \<noteq> []
          \<and> \<not> search_terminal_end (last (split_into_sentences (merged_text st raw)))
          \<and> map snd recs = butlast (split_into_sentences (merged_text st raw))
          \<and> carryover_fragment st2 = last (split_into_sentences (merged_text st raw)))
       \<or> (map snd recs = split_into_sentences (merged_text st raw)
          \<and> carryover_fragment st2 = [])"
proof (cases "carryover_fragment st = []")
  case True
  with assms show ?thesis
    by (auto simp add: process_text_unfold merged_text_def Let_def comp_def split: if_splits)
next
  case False
  with assms show ?thesis
    by (auto simp add: process_text_unfold merged_text_def Let_def comp_def split: if_splits)
qed

lemma process_text_sentences:
  assumes "process_text n raw st = (st2, recs)" and "(p, s) \<in> set recs"
  shows "s \<noteq> [] \<and> \<not> py_isspace (hd s) \<and> \<not> py_isspace (last s)"
proof -
  from assms(2) have mem: "s \<in> set (map snd recs)"
    by force
  have "s \<in> set (split_into_sentences (merged_text st raw))"
    using process_text_shape [OF assms(1)] mem
    by (metis in_set_butlastD)
  then show ?thesis
    by (rule sentence_trimmed)
qed

lemma visible_merged_text:
  "visible (merged_text st raw) =
     visible (carryover_fragment st) @ visible (normalize_line_breaks raw)"
  by (simp add: merged_text_def visible_append visible_space) (simp add: visible_def)

lemma process_text_content:
  assumes "process_text n raw st = (st2, recs)"
  shows "visible (concat (map snd recs)) @ visible (carryover_fragment st2)
       = visible (carryover_fragment st) @ visible (normalize_line_breaks raw)"
proof -
  let ?sents0 = "split_into_sentences (merged_text st raw)"
  have all: "visible (concat ?sents0) = visible (merged_text st raw)"
    by (rule visible_split_into_sentences)
  from process_text_shape [OF assms] show ?thesis
  proof
    assume a: "?sents0 \<noteq> [] \<and> \<not> search_terminal_end (last ?sents0)
      \<and> map snd recs = butlast ?sents0 \<and> carryover_fragment st2 = last ?sents0"
    then have "?sents0 = butlast ?sents0 @ [last ?sents0]"
      by simp
    then have "concat ?sents0 = concat (butlast ?sents0) @ last ?sents0"
      by (metis concat.simps(1) concat.simps(2) concat_append append_Nil2)
    then have "visible (concat (butlast ?sents0)) @ visible (last ?sents0)
        = visible (merged_text st raw)"
      using all by (simp add: visible_append)
    with a show ?thesis
      by (simp add: visible_merged_text)
  next
    assume a: "map snd recs = ?sents0 \<and> carryover_fragment st2 = []"
    with all show ?thesis
      by (simp add: visible_merged_text) (simp add: visible_def)
  qed
qed

lemma process_text_pages:
  assumes "process_text n raw st = (st2, recs)"
  shows "(\<forall>(p, s) \<in> set recs. p = n \<or> carryover_page st = Some p)
       \<and> (\<forall>p. carryover_page st2 = Some p \<longrightarrow> p = n \<or> carryover_page st = Some p)"
  using assms
  by (auto simp: process_text_unfold Let_def split: if_splits option.splits)


section \<open>The page walk on examples\<close>

lemma skip_decision_text_page:
  "skip_decision (plain_config skips) n (text_page t) =
     Some (n \<in> skips \<or> py_strip t = [] \<or> 3 \<le> caption_count t)"
proof -
  have "text_area_ratio_spec (text_page t) (page_dictionary (text_page t)) 0.05 0.05 = 0"
    by (simp add: text_area_ratio_spec_def text_page_def)
  moreover have "(int (length (py_strip t)) < 1) = (py_strip t = [])"
    by auto
  ultimately show ?thesis
    by (simp add: skip_decision_def plain_config_def should_skip_page_Some full_page_text_def)
      (simp add: text_page_def)
qed

lemma raw_page_text_text_page: "raw_page_text (plain_config skips) (text_page t) = t"
  by (simp add: raw_page_text_def plain_config_def text_page_def)

lemma process_page_text_page:
  "process_page (plain_config skips) n (text_page t) st =
     Some (if n \<in> skips \<or> py_strip t = [] \<or> 3 \<le> caption_count t then (st, [])
           else process_text n t st)"
  by (simp add: process_page_def skip_decision_text_page raw_page_text_text_page)

lemmas eval_count =
  caption_count_def match_caption_ko_def match_caption_en_def match_space_digits_def
  letter_ignorecase_def

lemmas eval_process = process_text_def py_startswith_def

lemma numbered_6:
  "numbered_pages [a, b, c, d, e, f] = [(1, a), (2, b), (3, c), (4, d), (5, e), (6, f)]"
  by (simp add: numbered_pages_def upt_rec)

lemma wrap_page_5:
  "process_page (plain_config {1, 2, 3, 4}) 5
      (text_page (ustr ''This is a sentence that wraps onto the next'')) initial_carry =
     Some (\<lparr>carryover_fragment = ustr ''This is a sentence that wraps onto the next'',
             carryover_page = Some 5\<rparr>, [])"
  by (simp add: process_page_text_page initial_carry_def eval_count eval_process eval_text eval_chars)

lemma wrap_page_6:
  "process_page (plain_config {1, 2, 3, 4}) 6
      (text_page (ustr ''page and ends here. Another full sentence.''))
      \<lparr>carryover_fragment = ustr ''This is a sentence that wraps onto the next'',
       carryover_page = Some 5\<rparr> =
     Some (\<lparr>carryover_fragment = [], carryover_page = None\<rparr>,
           [(6, ustr ''This is a sentence that wraps onto the next page and ends here.''),
            (6, ustr ''Another full sentence.'')])"
  by (simp add: process_page_text_page eval_count eval_process eval_text eval_chars)

text \<open>
  Claim C1. When a pending fragment is consumed on a page, the sentence that began with
  the fragment should be filed under the page where the fragment began, and the other
  sentences of the page under the current page; for the example the records should be
  those of pages 5 and 6. The page walk files both sentences under page 6: the loop has
  reset \<open>carryover_page\<close> before the records are written, so the test for the origin
  page never holds for the completed sentence.
\<close>

theorem wrap_example_records:
  "extract_sentences_with_page (plain_config {1, 2, 3, 4}) wrap_doc =
     Some [(6, ustr ''This is a sentence that wraps onto the next page and ends here.''),
           (6, ustr ''Another full sentence.'')]
   \<and> extract_sentences_with_page (plain_config {1, 2, 3, 4}) wrap_doc \<noteq>
     Some [(5, ustr ''This is a sentence that wraps onto the next page and ends here.''),
           (6, ustr ''Another full sentence.'')]"
proof -
  have skipped: "process_page (plain_config {1, 2, 3, 4}) n (text_page []) st = Some (st, [])"
    for n st
    by (simp add: process_page_text_page py_strip_Nil)
  show ?thesis
    by (simp add: extract_sentences_with_page_def wrap_doc_def numbered_6 skipped
        wrap_page_5 wrap_page_6)
qed

section \<open>Properties of the whole walk\<close>

lemma skip_decision_cases:
  "skip_decision cfg n pg = Some True \<or> skip_decision cfg n pg = Some False"
  by (auto simp: skip_decision_def should_skip_page_Some)

lemma process_page_cases:
  "process_page cfg n pg st =
     Some (if page_included cfg (n, pg) then process_text n (raw_page_text cfg pg) st
           else (st, []))"
  using skip_decision_cases [of cfg n pg]
  by (auto simp: process_page_def page_included_def)

lemma process_page_total: "\<exists>st1 recs1. process_page cfg n pg st = Some (st1, recs1)"
  by (cases "if page_included cfg (n, pg) then process_text n (raw_page_text cfg pg) st
           else (st, [])") (simp add: process_page_cases)

lemma extract_loop_total: "\<exists>st2 recs. extract_loop cfg st nps = Some (st2, recs)"
proof (induction nps arbitrary: st)
  case Nil
  show ?case by simp
next
  case (Cons np nps)
  obtain n pg where np: "np = (n, pg)"
    by (cases np)
  obtain st1 recs1 where step: "process_page cfg n pg st = Some (st1, recs1)"
    using process_page_total by blast
  from Cons.IH [of st1] obtain st2 recs2 where "extract_loop cfg st1 nps = Some (st2, recs2)"
    by blast
  with step np show ?case
    by simp
qed

lemma extract_loop_step:
  assumes "extract_loop cfg st ((n, pg) # rest) = Some (st2, recs)"
  obtains st1 recs1 recs2 where
    "process_page cfg n pg st = Some (st1, recs1)"
    "extract_loop cfg st1 rest = Some (st2, recs2)"
    "recs = recs1 @ recs2"
  using assms by (auto split: option.splits prod.splits)

lemma extract_loop_skip:
  "\<not> page_included cfg (n, pg) \<Longrightarrow>
     extract_loop cfg st ((n, pg) # rest) = extract_loop cfg st rest"
proof -
  assume "\<not> page_included cfg (n, pg)"
  then have "process_page cfg n pg st = Some (st, [])"
    by (simp add: process_page_cases)
  then show ?thesis
    by (cases "extract_loop cfg st rest") auto
qed

lemma extract_loop_filter:
  "extract_loop cfg st (filter (page_included cfg) nps) = extract_loop cfg st nps"
proof (induction nps arbitrary: st)
  case Nil
  show ?case by simp
next
  case (Cons np nps)
  obtain n pg where np: "np = (n, pg)"
    by (cases np)
  show ?case
  proof (cases "page_included cfg np")
    case True
    obtain st1 recs1 where step: "process_page cfg n pg st = Some (st1, recs1)"
      using process_page_total by blast
    from True show ?thesis
      by (simp add: np step Cons.IH)
  next
    case False
    then have "extract_loop cfg st (np # nps) = extract_loop cfg st nps"
      unfolding np by (rule extract_loop_skip)
    moreover from False have "filter (page_included cfg) (np # nps) = filter (page_included cfg) nps"
      by simp
    ultimately show ?thesis
      using Cons.IH [of st] by (simp only:)
  qed
qed

lemma extract_loop_content:
  assumes "extract_loop cfg st nps = Some (st2, recs)"
  shows "visible (concat (map snd recs)) @ visible (carryover_fragment st2)
       = visible (carryover_fragment st) @ visible (document_text cfg nps)"
  using assms
proof (induction nps arbitrary: st recs)
  case Nil
  then show ?case
    by (simp add: document_text_def) (simp add: visible_def)
next
  case (Cons np nps)
  obtain n pg where np: "np = (n, pg)"
    by (cases np)
  from Cons.prems obtain st1 recs1 recs2 where
    step: "process_page cfg n pg st = Some (st1, recs1)" and
    rest: "extract_loop cfg st1 nps = Some (st2, recs2)" and
    recs: "recs = recs1 @ recs2"
    unfolding np by (rule extract_loop_step)
  have tail: "visible (concat (map snd recs2)) @ visible (carryover_fragment st2)
       = visible (carryover_fragment st1) @ visible (document_text cfg nps)"
    using rest by (rule Cons.IH)
  have head: "visible (concat (map snd recs1)) @ visible (carryover_fragment st1)
       = visible (carryover_fragment st)
         @ visible (if page_included cfg (n, pg)
                    then normalize_line_breaks (raw_page_text cfg pg) else [])"
  proof (cases "page_included cfg (n, pg)")
    case True
    with step have "process_text n (raw_page_text cfg pg) st = (st1, recs1)"
      by (simp add: process_page_cases)
    from process_text_content [OF this] True show ?thesis
      by simp
  next
    case False
    with step show ?thesis
      by (auto simp: process_page_cases visible_def)
  qed
  have doc: "document_text cfg (np # nps)
       = (if page_included cfg (n, pg) then normalize_line_breaks (raw_page_text cfg pg) else [])
         @ document_text cfg nps"
    by (simp add: document_text_def np)
  have "visible (concat (map snd recs)) @ visible (carryover_fragment st2)
      = visible (concat (map snd recs1))
        @ (visible (concat (map snd recs2)) @ visible (carryover_fragment st2))"
    by (simp add: recs visible_append)
  also have "\<dots> = (visible (concat (map snd recs1)) @ visible (carryover_fragment st1))
        @ visible (document_text cfg nps)"
    by (simp add: tail)
  also have "\<dots> = visible (carryover_fragment st) @ visible (document_text cfg (np # nps))"
    by (simp only: head doc visible_append append_assoc)
  finally show ?case .
qed

lemma extract_loop_sentences:
  assumes "extract_loop cfg st nps = Some (st2, recs)" and "(p, s) \<in> set recs"
  shows "s \<noteq> [] \<and> \<not> py_isspace (hd s) \<and> \<not> py_isspace (last s)"
  using assms
proof (induction nps arbitrary: st recs)
  case Nil
  then show ?case by simp
next
  case (Cons np nps)
  obtain n pg where np: "np = (n, pg)"
    by (cases np)
  from Cons.prems(1) obtain st1 recs1 recs2 where
    step: "process_page cfg n pg st = Some (st1, recs1)" and
    rest: "extract_loop cfg st1 nps = Some (st2, recs2)" and
    recs: "recs = recs1 @ recs2"
    unfolding np by (rule extract_loop_step)
  from Cons.prems(2) recs consider "(p, s) \<in> set recs1" | "(p, s) \<in> set recs2"
    by auto
  then show ?case
  proof cases
    case 1
    then have "page_included cfg (n, pg)"
      using step by (auto simp: process_page_cases split: if_splits)
    with step have "process_text n (raw_page_text cfg pg) st = (st1, recs1)"
      by (simp add: process_page_cases)
    then show ?thesis
      using 1 by (rule process_text_sentences)
  next
    case 2
    with rest show ?thesis
      by (rule Cons.IH)
  qed
qed

lemma extract_loop_pages:
  assumes "extract_loop cfg st nps = Some (st2, recs)"
    and "\<forall>p. carryover_page st = Some p \<longrightarrow> p \<in> A"
    and "fst ` set (filter (page_included cfg) nps) \<subseteq> A"
  shows "(\<forall>(p, s) \<in> set recs. p \<in> A) \<and> (\<forall>p. carryover_page st2 = Some p \<longrightarrow> p \<in> A)"
  using assms
proof (induction nps arbitrary: st recs)
  case Nil
  then show ?case by simp
next
  case (Cons np nps)
  obtain n pg where np: "np = (n, pg)"
    by (cases np)
  from Cons.prems(1) obtain st1 recs1 recs2 where
    step: "process_page cfg n pg st = Some (st1, recs1)" and
    rest: "extract_loop cfg st1 nps = Some (st2, recs2)" and
    recs: "recs = recs1 @ recs2"
    unfolding np by (rule extract_loop_step)
  have sub: "fst ` set (filter (page_included cfg) nps) \<subseteq> A"
    using Cons.prems(3) by (auto split: if_splits)
  have head: "(\<forall>(p, s) \<in> set recs1. p \<in> A) \<and> (\<forall>p. carryover_page st1 = Some p \<longrightarrow> p \<in> A)"
  proof (cases "page_included cfg (n, pg)")
    case True
    then have "n \<in> A"
      using Cons.prems(3) by (simp add: np)
    moreover from True step have "process_text n (raw_page_text cfg pg) st = (st1, recs1)"
      by (simp add: process_page_cases)
    ultimately show ?thesis
      using process_text_pages [of n "raw_page_text cfg pg" st st1 recs1] Cons.prems(2)
      by fastforce
  next
    case False
    with step Cons.prems(2) show ?thesis
      by (auto simp: process_page_cases)
  qed
  from Cons.IH [OF rest _ sub] head
  have "(\<forall>(p, s) \<in> set recs2. p \<in> A) \<and> (\<forall>p. carryover_page st2 = Some p \<longrightarrow> p \<in> A)"
    by blast
  with head recs show ?case
    by auto
qed


lemma map_snd_numbered_pages: "map snd (numbered_pages doc) = doc"
  by (simp add: numbered_pages_def comp_def map_nth)

lemma visible_py_join: "visible (py_join [32] xs) = visible (concat xs)"
  by (induction "[32::nat]" xs rule: py_join.induct)
    (simp_all add: visible_append visible_space)

lemma numbered_1: "numbered_pages [a] = [(1, a)]"
  by (simp add: numbered_pages_def)

lemma numbered_2: "numbered_pages [a, b] = [(1, a), (2, b)]"
  by (simp add: numbered_pages_def upt_rec)

lemma numbered_3: "numbered_pages [a, b, c] = [(1, a), (2, b), (3, c)]"
  by (simp add: numbered_pages_def upt_rec)

lemmas eval_page =
  process_page_text_page eval_count eval_process eval_text eval_chars

text \<open>
  Claim C10. Every sentence that the walk writes is non-empty and has no whitespace at
  its start or at its end, for every document and every choice of options; and the walk
  always ends with a list of records.
\<close>

theorem sentences_trimmed:
  "\<exists>recs. extract_sentences_with_page cfg doc = Some recs
     \<and> (\<forall>(p, s) \<in> set recs. s \<noteq> [] \<and> \<not> py_isspace (hd s) \<and> \<not> py_isspace (last s))"
proof -
  obtain st recs where
    run: "extract_loop cfg initial_carry (numbered_pages doc) = Some (st, recs)"
    using extract_loop_total by blast
  then have "extract_sentences_with_page cfg doc = Some recs"
    by (simp add: extract_sentences_with_page_def)
  moreover have "\<forall>(p, s) \<in> set recs. s \<noteq> [] \<and> \<not> py_isspace (hd s) \<and> \<not> py_isspace (last s)"
    using extract_loop_sentences [OF run] by blast
  ultimately show ?thesis
    by blast
qed

theorem sentences_trimmed_witness:
  "extract_sentences_with_page (plain_config {}) padded_doc =
     Some [(1, ustr ''Hello world.''), (1, ustr ''Bye.'')]
   \<and> ustr ''Hello world.'' \<noteq> []
   \<and> \<not> py_isspace (hd (ustr ''Hello world.''))
   \<and> \<not> py_isspace (last (ustr ''Hello world.''))
   \<and> ustr ''Bye.'' \<noteq> []
   \<and> \<not> py_isspace (hd (ustr ''Bye.''))
   \<and> \<not> py_isspace (last (ustr ''Bye.''))"
proof -
  have run: "extract_sentences_with_page (plain_config {}) padded_doc =
     Some [(1, ustr ''Hello world.''), (1, ustr ''Bye.'')]"
    by (simp add: extract_sentences_with_page_def padded_doc_def numbered_1 initial_carry_def
        eval_page)
  with sentences_trimmed [of "plain_config {}" padded_doc] show ?thesis
    by simp
qed

text \<open>
  Claim C4. A page that the filter skips leaves the carry as it is and writes nothing, so
  a pending fragment reaches the next page that is read; the walk over a document is the
  walk over its pages that are not skipped, so nothing of a skipped page enters a sentence;
  and every record is filed under the number of a page that was not skipped.
\<close>

theorem skipped_page_untouched:
  "(skip_decision cfg n pg = Some True \<longrightarrow> process_page cfg n pg st = Some (st, []))
   \<and> extract_loop cfg st (filter (page_included cfg) nps) = extract_loop cfg st nps
   \<and> (\<exists>recs. extract_sentences_with_page cfg doc = Some recs
        \<and> (\<forall>(p, s) \<in> set recs.
              \<exists>i < length doc. p = int i + 1 \<and> skip_decision cfg p (doc ! i) = Some False))"
proof (intro conjI)
  show "skip_decision cfg n pg = Some True \<longrightarrow> process_page cfg n pg st = Some (st, [])"
    by (simp add: process_page_def)
  show "extract_loop cfg st (filter (page_included cfg) nps) = extract_loop cfg st nps"
    by (rule extract_loop_filter)
  obtain st2 recs where
    run: "extract_loop cfg initial_carry (numbered_pages doc) = Some (st2, recs)"
    using extract_loop_total by blast
  let ?A = "fst ` set (filter (page_included cfg) (numbered_pages doc))"
  have "\<forall>p. carryover_page initial_carry = Some p \<longrightarrow> p \<in> ?A"
    by (simp add: initial_carry_def)
  from extract_loop_pages [OF run this] have pages: "\<forall>(p, s) \<in> set recs. p \<in> ?A"
    by blast
  have "\<exists>i < length doc. p = int i + 1 \<and> skip_decision cfg p (doc ! i) = Some False"
    if "p \<in> ?A" for p
    using that by (auto simp: numbered_pages_def page_included_def)
  with pages have "\<forall>(p, s) \<in> set recs.
      \<exists>i < length doc. p = int i + 1 \<and> skip_decision cfg p (doc ! i) = Some False"
    by blast
  moreover have "extract_sentences_with_page cfg doc = Some recs"
    using run by (simp add: extract_sentences_with_page_def)
  ultimately show "\<exists>recs. extract_sentences_with_page cfg doc = Some recs
        \<and> (\<forall>(p, s) \<in> set recs.
              \<exists>i < length doc. p = int i + 1 \<and> skip_decision cfg p (doc ! i) = Some False)"
    by blast
qed

text \<open>
  Page 2 is in the skip set: the fragment of page 1 passes it unchanged and is completed
  on page 3, and no record is filed under page 2.
\<close>

theorem skipped_page_untouched_witness:
  "skip_decision (plain_config {2}) 2 (text_page (ustr ''junk.'')) = Some True
   \<and> process_page (plain_config {2}) 2 (text_page (ustr ''junk.''))
        \<lparr>carryover_fragment = ustr ''Foo'', carryover_page = Some 1\<rparr>
      = Some (\<lparr>carryover_fragment = ustr ''Foo'', carryover_page = Some 1\<rparr>, [])
   \<and> extract_sentences_with_page (plain_config {2}) skipped_middle_doc
      = Some [(3, ustr ''Foo bar.'')]"
proof -
  have skip: "skip_decision (plain_config {2}) 2 (text_page (ustr ''junk.'')) = Some True"
    by (simp add: skip_decision_text_page)
  have run: "extract_sentences_with_page (plain_config {2}) skipped_middle_doc
      = Some [(3, ustr ''Foo bar.'')]"
    by (simp add: extract_sentences_with_page_def skipped_middle_doc_def numbered_3
        initial_carry_def eval_page)
  from skip run
    skipped_page_untouched [of "plain_config {2}" 2 "text_page (ustr ''junk.'')"
      "\<lparr>carryover_fragment = ustr ''Foo'', carryover_page = Some 1\<rparr>"
      "numbered_pages skipped_middle_doc" skipped_middle_doc]
  show ?thesis
    by blast
qed



text \<open>
  Claim C3, as it is stated, fails: on a page of the two lines "A." and "B.", which is not
  skipped and leaves no fragment, the sentences joined by single spaces are "A. B.", while
  the normalised text of the document has a newline after each of the two sentences.
\<close>

theorem round_trip_counterexample:
  "page_included (plain_config {}) (1, text_page (ustr ''A.'' @ [10] @ ustr ''B.''))
   \<and> extract_loop (plain_config {}) initial_carry (numbered_pages two_line_doc)
       = Some (\<lparr>carryover_fragment = [], carryover_page = None\<rparr>,
               [(1, ustr ''A.''), (1, ustr ''B.'')])
   \<and> py_join [32] (map snd [(1 :: int, ustr ''A.''), (1, ustr ''B.'')])
       \<noteq> document_text (plain_config {}) (numbered_pages two_line_doc)"
proof (intro conjI)
  show inc: "page_included (plain_config {}) (1, text_page (ustr ''A.'' @ [10] @ ustr ''B.''))"
    by (simp add: page_included_def skip_decision_text_page eval_count eval_chars)
  show "extract_loop (plain_config {}) initial_carry (numbered_pages two_line_doc)
       = Some (\<lparr>carryover_fragment = [], carryover_page = None\<rparr>,
               [(1, ustr ''A.''), (1, ustr ''B.'')])"
    by (simp add: two_line_doc_def numbered_1 initial_carry_def eval_page)
  have "document_text (plain_config {}) (numbered_pages two_line_doc)
      = ustr ''A.'' @ [10] @ ustr ''B.'' @ [10]"
    using inc
    by (simp add: document_text_def two_line_doc_def numbered_1 raw_page_text_text_page)
      (simp add: eval_text eval_chars)
  then show "py_join [32] (map snd [(1 :: int, ustr ''A.''), (1, ustr ''B.'')])
       \<noteq> document_text (plain_config {}) (numbered_pages two_line_doc)"
    by (simp add: ustr_def)
qed

text \<open>
  Claim C3, amended. For a document of which no page is skipped, the sentences of the
  records joined by single spaces, followed by the fragment that is pending at the end,
  have the same content as the normalised texts of the pages one after the other: the two
  agree once the whitespace is deleted from both.
\<close>

theorem round_trip_content:
  assumes "\<forall>np \<in> set (numbered_pages doc). page_included cfg np"
  shows "\<exists>st recs. extract_loop cfg initial_carry (numbered_pages doc) = Some (st, recs)
     \<and> visible (py_join [32] (map snd recs)) @ visible (carryover_fragment st)
         = visible (concat (map (\<lambda>pg. normalize_line_breaks (raw_page_text cfg pg)) doc))"
proof -
  obtain st recs where
    run: "extract_loop cfg initial_carry (numbered_pages doc) = Some (st, recs)"
    using extract_loop_total by blast
  have "filter (page_included cfg) (numbered_pages doc) = numbered_pages doc"
    using assms by simp
  then have "document_text cfg (numbered_pages doc)
      = concat (map (\<lambda>pg. normalize_line_breaks (raw_page_text cfg pg))
                 (map snd (numbered_pages doc)))"
    by (simp add: document_text_def comp_def)
  then have doc: "document_text cfg (numbered_pages doc)
      = concat (map (\<lambda>pg. normalize_line_breaks (raw_page_text cfg pg)) doc)"
    by (simp only: map_snd_numbered_pages)
  have "visible (concat (map snd recs)) @ visible (carryover_fragment st)
         = visible (document_text cfg (numbered_pages doc))"
    using extract_loop_content [OF run] by (simp add: initial_carry_def) (simp add: visible_def)
  then have "visible (py_join [32] (map snd recs)) @ visible (carryover_fragment st)
         = visible (concat (map (\<lambda>pg. normalize_line_breaks (raw_page_text cfg pg)) doc))"
    by (simp only: visible_py_join doc)
  with run show ?thesis
    by blast
qed

theorem round_trip_content_witness:
  "page_included (plain_config {}) (1, text_page (ustr ''One. Two''))
   \<and> page_included (plain_config {}) (2, text_page (ustr ''three. Four''))
   \<and> extract_loop (plain_config {}) initial_carry (numbered_pages carry_doc)
       = Some (\<lparr>carryover_fragment = ustr ''Four'', carryover_page = Some 1\<rparr>,
               [(1, ustr ''One.''), (2, ustr ''Two three.'')])
   \<and> visible (py_join [32] [ustr ''One.'', ustr ''Two three.'']) @ visible (ustr ''Four'')
       = visible (concat (map (\<lambda>pg. normalize_line_breaks
                                       (raw_page_text (plain_config {}) pg)) carry_doc))"
proof -
  have inc: "\<forall>np \<in> set (numbered_pages carry_doc). page_included (plain_config {}) np"
    by (simp add: carry_doc_def numbered_2 page_included_def skip_decision_text_page
        eval_count eval_chars)
  have run: "extract_loop (plain_config {}) initial_carry (numbered_pages carry_doc)
       = Some (\<lparr>carryover_fragment = ustr ''Four'', carryover_page = Some 1\<rparr>,
               [(1, ustr ''One.''), (2, ustr ''Two three.'')])"
    by (simp add: carry_doc_def numbered_2 initial_carry_def eval_page)
  have one: "page_included (plain_config {}) (1, text_page (ustr ''One. Two''))"
    and two: "page_included (plain_config {}) (2, text_page (ustr ''three. Four''))"
    using inc by (simp_all add: carry_doc_def numbered_2)
  from round_trip_content [OF inc] run one two show ?thesis
    by auto
qed

text \<open>
  Claim C2. A record should carry a page earlier than the page on which it is written
  exactly when its sentence began as the fragment carried from that earlier page. The page
  walk breaks both directions: the sentence "Foo bar." that began as the fragment of page 1
  is filed under page 2, where it is completed; and when page 2 itself ends in a new
  fragment "Foo", the sentence "Foo baz.", which lies wholly on page 2, is filed under
  page 1 because it starts with the text of the new fragment.
\<close>

theorem attribution_examples:
  "extract_sentences_with_page (plain_config {}) short_carry_doc = Some [(2, ustr ''Foo bar.'')]
   \<and> extract_sentences_with_page (plain_config {}) prefix_doc
       = Some [(1, ustr ''Foo bar.''), (1, ustr ''Foo baz.'')]"
proof
  show "extract_sentences_with_page (plain_config {}) short_carry_doc
      = Some [(2, ustr ''Foo bar.'')]"
    by (simp add: extract_sentences_with_page_def short_carry_doc_def numbered_2
        initial_carry_def eval_page)
  show "extract_sentences_with_page (plain_config {}) prefix_doc
       = Some [(1, ustr ''Foo bar.''), (1, ustr ''Foo baz.'')]"
    by (simp add: extract_sentences_with_page_def prefix_doc_def numbered_2
        initial_carry_def eval_page)
qed

end
